theory Spec2Isabelle
  imports Main
begin

section \<open>Terminal snake game: data model\<close>

text \<open>
  The program is one Python file, \<^verbatim>\<open>snake.py\<close>. A cell is the two-element list
  \<^verbatim>\<open>[row, column]\<close> of Python integers; the snake is a list of cells, head first.
  Directions are the raw curses key codes, as in the source.
\<close>

type_synonym cell = "int \<times> int"

datatype error = IndexError | ValueError | TypeError | CursesError

text \<open>
  The four key codes are imported from \<^verbatim>\<open>curses\<close> (line 13); the values are those of
  ncurses. \<^verbatim>\<open>ord('q')\<close> and \<^verbatim>\<open>ord('r')\<close> are the ASCII codes.
\<close>

definition KEY_DOWN :: int where "KEY_DOWN = 258"
definition KEY_UP :: int where "KEY_UP = 259"
definition KEY_LEFT :: int where "KEY_LEFT = 260"
definition KEY_RIGHT :: int where "KEY_RIGHT = 261"

definition ord_q :: int where "ord_q = 113"
definition ord_r :: int where "ord_r = 114"

section \<open>Direction mapping (lines 133-145)\<close>

definition process_key_input :: "int \<Rightarrow> int \<Rightarrow> int" where
  "process_key_input key current_direction =
     (if key = KEY_DOWN \<and> current_direction \<noteq> KEY_UP then KEY_DOWN
      else if key = KEY_UP \<and> current_direction \<noteq> KEY_DOWN then KEY_UP
      else if key = KEY_LEFT \<and> current_direction \<noteq> KEY_RIGHT then KEY_LEFT
      else if key = KEY_RIGHT \<and> current_direction \<noteq> KEY_LEFT then KEY_RIGHT
      else current_direction)"

text \<open>The arrow directions, and the direction pointing the other way on the same axis.\<close>

definition arrows :: "int list" where
  "arrows = [KEY_DOWN, KEY_UP, KEY_LEFT, KEY_RIGHT]"

definition opposite :: "int \<Rightarrow> int" where
  "opposite d =
     (if d = KEY_DOWN then KEY_UP
      else if d = KEY_UP then KEY_DOWN
      else if d = KEY_LEFT then KEY_RIGHT
      else if d = KEY_RIGHT then KEY_LEFT
      else d)"

section \<open>New head (lines 147-158)\<close>

subsection \<open>On values\<close>

text \<open>
  \<^verbatim>\<open>snake[0]\<close> raises \<^verbatim>\<open>IndexError\<close> on an empty list. The head is copied and one
  coordinate of the copy is changed; on values this is the shifted pair.
\<close>

definition shift :: "int \<Rightarrow> cell \<Rightarrow> cell" where
  "shift direction c =
     (if direction = KEY_DOWN then (fst c + 1, snd c)
      else if direction = KEY_UP then (fst c - 1, snd c)
      else if direction = KEY_LEFT then (fst c, snd c - 1)
      else if direction = KEY_RIGHT then (fst c, snd c + 1)
      else c)"

fun calculate_new_head :: "cell list \<Rightarrow> int \<Rightarrow> error + cell" where
  "calculate_new_head [] direction = Inl IndexError"
| "calculate_new_head (c # _) direction = Inr (shift direction c)"

subsection \<open>On a store of list objects\<close>

text \<open>
  Python lists are mutable objects reached through references, and
  \<^verbatim>\<open>new_head[0] += 1\<close> writes into an object. To speak about what the function
  leaves untouched, the same function is also given over an explicit store: an object
  is a list of integers (a cell) or a list of references (the snake), an address is an
  index into the store, and allocation appends to the store.
\<close>

datatype pyobj = IntList "int list" | RefList "nat list"

type_synonym store = "pyobj list"

text \<open>\<^verbatim>\<open>obj[i] += d\<close> on the object at address \<open>a\<close>.\<close>

definition add_item :: "store \<Rightarrow> nat \<Rightarrow> nat \<Rightarrow> int \<Rightarrow> error + store" where
  "add_item s a i d =
     (if a < length s then
        (case s ! a of
           IntList xs \<Rightarrow>
             if i < length xs then Inr (s[a := IntList (xs[i := xs ! i + d])])
             else Inl IndexError
         | RefList _ \<Rightarrow> Inl TypeError)
      else Inl TypeError)"

text \<open>
  \<^verbatim>\<open>snake[0].copy()\<close> allocates a new list object with the same items; the address of
  the copy is the first unused one. A reference that points outside the store does not
  arise in Python and is reported as \<open>TypeError\<close> here.
\<close>

definition calculate_new_head_store :: "store \<Rightarrow> nat \<Rightarrow> int \<Rightarrow> error + (nat \<times> store)" where
  "calculate_new_head_store s snake direction =
     (if snake < length s then
        (case s ! snake of
           IntList _ \<Rightarrow> Inl TypeError
         | RefList refs \<Rightarrow>
             (case refs of
                [] \<Rightarrow> Inl IndexError
              | a # _ \<Rightarrow>
                  if a < length s then
                    (case s ! a of
                       RefList _ \<Rightarrow> Inl TypeError
                     | IntList xs \<Rightarrow>
                         (let new_head = length s;
                              s1 = s @ [IntList xs];
                              r = (if direction = KEY_DOWN then add_item s1 new_head 0 1
                                   else if direction = KEY_UP then add_item s1 new_head 0 (- 1)
                                   else if direction = KEY_LEFT then add_item s1 new_head 1 (- 1)
                                   else if direction = KEY_RIGHT then add_item s1 new_head 1 1
                                   else Inr s1)
                          in (case r of Inl e \<Rightarrow> Inl e | Inr s2 \<Rightarrow> Inr (new_head, s2))))
                  else Inl TypeError))
      else Inl TypeError)"

text \<open>The cell stored at an address, when the object there is a two-element list.\<close>

definition cell_at :: "store \<Rightarrow> nat \<Rightarrow> cell option" where
  "cell_at s a =
     (if a < length s then
        (case s ! a of
           IntList [r, c] \<Rightarrow> Some (r, c)
         | _ \<Rightarrow> None)
      else None)"

section \<open>Food placement (lines 126-131)\<close>

text \<open>
  \<^verbatim>\<open>random.randint(a, b)\<close> is library code: it returns an integer \<open>n\<close> with
  \<open>a \<le> n \<le> b\<close> and raises \<^verbatim>\<open>ValueError\<close> when the range is empty. The generator is
  modelled by a sequence of natural numbers, the entropy it consumes, one per call; the
  number drawn selects the value in the range.
\<close>

definition randint :: "int \<Rightarrow> int \<Rightarrow> nat \<Rightarrow> error + int" where
  "randint a b r = (if b < a then Inl ValueError else Inr (a + int r mod (b - a + 1)))"

text \<open>
  The loop has no bound on its iterations, so the function is partial: \<open>None\<close> is the
  run that never returns. A result carries the position reached in the entropy sequence.
\<close>

partial_function (option) create_food ::
  "int \<Rightarrow> int \<Rightarrow> cell list \<Rightarrow> (nat \<Rightarrow> nat) \<Rightarrow> nat \<Rightarrow> (error + cell \<times> nat) option" where
  "create_food h w snake rnd i =
     (case randint 1 (h - 2) (rnd i) of
        Inl e \<Rightarrow> Some (Inl e)
      | Inr y \<Rightarrow>
          (case randint 1 (w - 2) (rnd (i + 1)) of
             Inl e \<Rightarrow> Some (Inl e)
           | Inr x \<Rightarrow>
               if (y, x) \<notin> set snake then Some (Inr ((y, x), i + 2))
               else create_food h w snake rnd (i + 2)))"

section \<open>Collision test (lines 89-91)\<close>

text \<open>
  The test is one condition, three operands joined by \<^verbatim>\<open>or\<close>: the row test, the column
  test and membership in the snake. The program takes the same branch whichever operand
  holds.
\<close>

definition collides :: "int \<Rightarrow> int \<Rightarrow> cell \<Rightarrow> cell list \<Rightarrow> bool" where
  "collides h w new_head snake \<longleftrightarrow>
     fst new_head \<in> set [0, h - 1] \<or> snd new_head \<in> set [0, w - 1] \<or> new_head \<in> set snake"

text \<open>The border and the interior of an \<open>h\<close> by \<open>w\<close> window, as the specification names them.\<close>

definition on_border :: "int \<Rightarrow> int \<Rightarrow> cell \<Rightarrow> bool" where
  "on_border h w c \<longleftrightarrow> fst c = 0 \<or> fst c = h - 1 \<or> snd c = 0 \<or> snd c = w - 1"

definition interior :: "int \<Rightarrow> int \<Rightarrow> cell \<Rightarrow> bool" where
  "interior h w c \<longleftrightarrow> 1 \<le> fst c \<and> fst c \<le> h - 2 \<and> 1 \<le> snd c \<and> snd c \<le> w - 2"

text \<open>The candidate computed by the iteration of \<open>create_food\<close> that starts at position \<open>i\<close>.\<close>

definition draw :: "int \<Rightarrow> int \<Rightarrow> (nat \<Rightarrow> nat) \<Rightarrow> nat \<Rightarrow> cell" where
  "draw h w rnd i = (1 + int (rnd i) mod (h - 2), 1 + int (rnd (i + 1)) mod (w - 2))"

text \<open>
  A sequence is fair from position \<open>i\<close> when every interior cell is the candidate of some
  later iteration, which uniform sampling gives with probability one.
\<close>

definition fair_from :: "int \<Rightarrow> int \<Rightarrow> (nat \<Rightarrow> nat) \<Rightarrow> nat \<Rightarrow> bool" where
  "fair_from h w rnd i \<longleftrightarrow> (\<forall>c. interior h w c \<longrightarrow> (\<exists>k. draw h w rnd (i + 2 * k) = c))"

section \<open>The game loop (lines 15-124)\<close>

text \<open>
  The spawn cells (lines 42-46 and 96-100).
\<close>

definition spawn :: "int \<Rightarrow> int \<Rightarrow> cell list" where
  "spawn y x = [(y, x), (y, x - 1), (y, x - 2)]"

text \<open>
  The phases are the places where the program waits in \<^verbatim>\<open>getch\<close>: inside
  \<^verbatim>\<open>show_instructions\<close>, at the head of the game loop, and inside \<^verbatim>\<open>game_over\<close>,
  whose parameter \<^verbatim>\<open>score\<close> the phase carries. \<open>Terminated\<close> is \<^verbatim>\<open>main\<close> having returned.
\<close>

datatype phase = Instructions | Playing | GameOver int | Terminated

text \<open>
  The local variables of \<^verbatim>\<open>main\<close>, the input delay of the two windows, and the position
  of the random generator. Drawing calls write to the screen only and are left out.
\<close>

record game =
  sh :: int
  sw :: int
  h :: int
  w :: int
  snake_x :: int
  snake_y :: int
  snake :: "cell list"
  direction :: int
  food :: cell
  score :: int
  stdscr_delay :: int
  win_delay :: int
  rng :: nat
  phase :: phase

text \<open>What the start-up check writes when the terminal is too small (lines 25-28).\<close>

datatype event = Clear | AddStr int int string | Refresh | Sleep int

datatype startup = TooSmall "event list" | Started game

text \<open>
  \<^verbatim>\<open>addstr(y, x, text)\<close> on a window of \<open>rows\<close> by \<open>cols\<close> cells is library code: it
  writes the text cell by cell from row \<open>y\<close>, column \<open>x\<close>, a position inside the window,
  going on to the next row at the end of a row, and raises \<^verbatim>\<open>curses.error\<close> when the
  text does not end before the last cell of the window. The program's message of 41
  characters, written from row 0, column 0, needs a window of more than 41 cells.
\<close>

definition addstr :: "int \<Rightarrow> int \<Rightarrow> int \<Rightarrow> int \<Rightarrow> string \<Rightarrow> error + event" where
  "addstr rows cols y x s =
     (if rows * cols \<le> y * cols + x + int (length s) then Inl CursesError
      else Inr (AddStr y x s))"

text \<open>
  Lines 17-64, up to the call of \<^verbatim>\<open>getch\<close> in \<^verbatim>\<open>show_instructions\<close>. On a terminal that
  is too small the message is written with \<^verbatim>\<open>addstr\<close>, whose exception nothing in
  \<^verbatim>\<open>main\<close> catches. The new window has \<^verbatim>\<open>sh-2\<close> rows and \<^verbatim>\<open>sw-2\<close> columns, which
  \<^verbatim>\<open>getmaxyx\<close> returns; \<^verbatim>\<open>//\<close> is floor division.
\<close>

definition main_start :: "(nat \<Rightarrow> nat) \<Rightarrow> int \<Rightarrow> int \<Rightarrow> (error + startup) option" where
  "main_start rnd sh0 sw0 =
     (if sh0 < 10 \<or> sw0 < 30 then
        (case addstr sh0 sw0 0 0 ''Terminal too small. Resize and try again.'' of
           Inl e \<Rightarrow> Some (Inl e)
         | Inr ev \<Rightarrow> Some (Inr (TooSmall [Clear, ev, Refresh, Sleep 2])))
      else
        (let h0 = sh0 - 2; w0 = sw0 - 2;
             x = w0 div 4; y = h0 div 2;
             cells = spawn y x
         in (case create_food h0 w0 cells rnd 0 of
               None \<Rightarrow> None
             | Some (Inl e) \<Rightarrow> Some (Inl e)
             | Some (Inr (f, i)) \<Rightarrow>
                 Some (Inr (Started
                   \<lparr>sh = sh0, sw = sw0, h = h0, w = w0, snake_x = x, snake_y = y,
                    snake = cells, direction = KEY_RIGHT, food = f, score = 0,
                    stdscr_delay = 100, win_delay = 100, rng = i,
                    phase = Instructions\<rparr>)))))"

text \<open>The direction after the key has been looked at (lines 76-83, the quit branch apart).\<close>

definition turn :: "game \<Rightarrow> int \<Rightarrow> game" where
  "turn g next_key =
     (if next_key = - 1 then g
      else g\<lparr>direction := process_key_input next_key (direction g)\<rparr>)"

text \<open>One iteration of the game loop, from the value returned by \<^verbatim>\<open>win.getch()\<close> (lines 73-124).\<close>

definition tick :: "(nat \<Rightarrow> nat) \<Rightarrow> game \<Rightarrow> int \<Rightarrow> (error + game) option" where
  "tick rnd g next_key =
     (if next_key \<noteq> - 1 \<and> next_key = ord_q then Some (Inr (g\<lparr>phase := Terminated\<rparr>))
      else
        (let g1 = turn g next_key
         in (case calculate_new_head (snake g1) (direction g1) of
               Inl e \<Rightarrow> Some (Inl e)
             | Inr new_head \<Rightarrow>
                 if collides (h g1) (w g1) new_head (snake g1)
                 then Some (Inr (g1\<lparr>phase := GameOver (score g1)\<rparr>))
                 else
                   (let g2 = g1\<lparr>snake := new_head # snake g1\<rparr>
                    in if hd (snake g2) = food g2 then
                         (case create_food (h g2) (w g2) (snake g2) rnd (rng g2) of
                            None \<Rightarrow> None
                          | Some (Inl e) \<Rightarrow> Some (Inl e)
                          | Some (Inr (f, i)) \<Rightarrow>
                              Some (Inr (g2\<lparr>food := f, rng := i, score := score g2 + 1\<rparr>)))
                       else Some (Inr (g2\<lparr>snake := butlast (snake g2)\<rparr>))))))"

text \<open>
  The body of the loop in \<^verbatim>\<open>game_over\<close> (lines 207-211): \<open>Some True\<close> and
  \<open>Some False\<close> are the two returns, \<open>None\<close> is the next iteration.
\<close>

definition game_over_key :: "int \<Rightarrow> bool option" where
  "game_over_key key =
     (if key = ord_r then Some True else if key = ord_q then Some False else None)"

text \<open>The reset after \<^verbatim>\<open>game_over\<close> has returned \<^verbatim>\<open>True\<close> (lines 95-105).\<close>

definition restart :: "(nat \<Rightarrow> nat) \<Rightarrow> game \<Rightarrow> (error + game) option" where
  "restart rnd g =
     (let g1 = g\<lparr>snake := spawn (snake_y g) (snake_x g), direction := KEY_RIGHT\<rparr>
      in (case create_food (h g1) (w g1) (snake g1) rnd (rng g1) of
            None \<Rightarrow> None
          | Some (Inl e) \<Rightarrow> Some (Inl e)
          | Some (Inr (f, i)) \<Rightarrow>
              Some (Inr (g1\<lparr>food := f, rng := i, score := 0, phase := Playing\<rparr>))))"

text \<open>
  \<^verbatim>\<open>show_instructions\<close> (lines 160-179) draws the help text and calls
  \<^verbatim>\<open>stdscr.getch()\<close>, whose result it does not look at; when the call has returned,
  \<^verbatim>\<open>main\<close> goes on to the game loop.
\<close>

definition show_instructions :: "game \<Rightarrow> int \<Rightarrow> game" where
  "show_instructions g key = g\<lparr>phase := Playing\<rparr>"

text \<open>One call of \<^verbatim>\<open>getch\<close> having returned \<open>key\<close>, in each phase.\<close>

definition step :: "(nat \<Rightarrow> nat) \<Rightarrow> game \<Rightarrow> int \<Rightarrow> (error + game) option" where
  "step rnd g key =
     (case phase g of
        Instructions \<Rightarrow> Some (Inr (show_instructions g key))
      | Playing \<Rightarrow> tick rnd g key
      | GameOver s \<Rightarrow>
          (case game_over_key key of
             None \<Rightarrow> Some (Inr g)
           | Some True \<Rightarrow> restart rnd g
           | Some False \<Rightarrow> Some (Inr (g\<lparr>phase := Terminated\<rparr>)))
      | Terminated \<Rightarrow> Some (Inr g))"

subsection \<open>Keyboard input\<close>

text \<open>
  The keyboard is a list of polling intervals: each entry is the key code that arrived
  during the interval, or \<open>-1\<close> when none did. \<^verbatim>\<open>getch\<close> on a window with a negative
  delay blocks until a key arrives; with the delay set by \<^verbatim>\<open>timeout(100)\<close> it waits for
  one interval and returns \<open>-1\<close> when no key arrived. \<open>None\<close> is the end of the
  recorded input.
\<close>

fun getch :: "int \<Rightarrow> int list \<Rightarrow> (int \<times> int list) option" where
  "getch delay [] = None"
| "getch delay (k # ks) = (if delay < 0 \<and> k = - 1 then getch delay ks else Some (k, ks))"

text \<open>The window read in each phase: \<^verbatim>\<open>win\<close> in the game loop, \<^verbatim>\<open>stdscr\<close> on the two screens.\<close>

definition delay_of :: "game \<Rightarrow> int" where
  "delay_of g = (case phase g of Playing \<Rightarrow> win_delay g | _ \<Rightarrow> stdscr_delay g)"

text \<open>
  The program run on a recorded input: the state in which it waits for more input, or
  has returned.
\<close>

function run :: "(nat \<Rightarrow> nat) \<Rightarrow> game \<Rightarrow> int list \<Rightarrow> (error + game) option" where
  "run rnd g ks =
     (if phase g = Terminated then Some (Inr g)
      else
        (case getch (delay_of g) ks of
           None \<Rightarrow> Some (Inr g)
         | Some (key, rest) \<Rightarrow>
             (case step rnd g key of
                None \<Rightarrow> None
              | Some (Inl e) \<Rightarrow> Some (Inl e)
              | Some (Inr g') \<Rightarrow> run rnd g' rest)))"
  by pat_completeness auto
termination
proof (relation "measure (\<lambda>(rnd, g, ks). length ks)")
  have shorter: "length rest < length ks" if "getch d ks = Some (k, rest)" for d ks k rest
    using that by (induction ks) (auto split: if_splits)
  fix rnd :: "nat \<Rightarrow> nat" and g :: game and ks :: "int list" and x2 x y x2a xa g'
  assume "getch (delay_of g) ks = Some x2" and "(x, y) = x2"
  then show "((rnd, g', y), (rnd, g, ks)) \<in> measure (\<lambda>(rnd, g, ks). length ks)"
    using shorter [of "delay_of g" ks x y] by simp
qed simp

definition main :: "(nat \<Rightarrow> nat) \<Rightarrow> int \<Rightarrow> int \<Rightarrow> int list \<Rightarrow> (error + startup) option" where
  "main rnd sh0 sw0 ks =
     (case main_start rnd sh0 sw0 of
        None \<Rightarrow> None
      | Some (Inl e) \<Rightarrow> Some (Inl e)
      | Some (Inr (TooSmall evs)) \<Rightarrow> Some (Inr (TooSmall evs))
      | Some (Inr (Started g)) \<Rightarrow>
          (case run rnd g ks of
             None \<Rightarrow> None
           | Some (Inl e) \<Rightarrow> Some (Inl e)
           | Some (Inr g') \<Rightarrow> Some (Inr (Started g'))))"

subsection \<open>Invariants of a run\<close>

text \<open>The cells of a snake are pairwise distinct and inside the interior.\<close>

definition snake_ok :: "int \<Rightarrow> int \<Rightarrow> cell list \<Rightarrow> bool" where
  "snake_ok H W cells \<longleftrightarrow> distinct cells \<and> (\<forall>c \<in> set cells. interior H W c)"

text \<open>
  What the start on a terminal of \<open>sh0\<close> rows and \<open>sw0\<close> columns fixes for the whole
  run, together with the snake being well formed.
\<close>

definition session :: "int \<Rightarrow> int \<Rightarrow> game \<Rightarrow> bool" where
  "session sh0 sw0 g \<longleftrightarrow>
     10 \<le> sh0 \<and> 30 \<le> sw0 \<and> sh g = sh0 \<and> sw g = sw0
     \<and> h g = sh0 - 2 \<and> w g = sw0 - 2
     \<and> snake_x g = (sw0 - 2) div 4 \<and> snake_y g = (sh0 - 2) div 2
     \<and> stdscr_delay g = 100 \<and> win_delay g = 100
     \<and> snake g \<noteq> [] \<and> snake_ok (sh0 - 2) (sw0 - 2) (snake g)"

subsection \<open>A run on the smallest terminal\<close>

text \<open>
  The states of a run on a terminal of 10 rows and 30 columns, the smallest that the
  start-up check accepts: the window has 8 rows and 28 columns and the snake spawns with
  its head at row 4, column 7. The examples below are runs on this terminal.
\<close>

definition game_10_30 :: "cell list \<Rightarrow> int \<Rightarrow> cell \<Rightarrow> int \<Rightarrow> nat \<Rightarrow> phase \<Rightarrow> game" where
  "game_10_30 cells d f sc r p =
     \<lparr>sh = 10, sw = 30, h = 8, w = 28, snake_x = 7, snake_y = 4,
      snake = cells, direction = d, food = f, score = sc,
      stdscr_delay = 100, win_delay = 100, rng = r, phase = p\<rparr>"

section \<open>Properties\<close>

lemmas key_defs = KEY_DOWN_def KEY_UP_def KEY_LEFT_def KEY_RIGHT_def ord_q_def ord_r_def

subsection \<open>Direction mapping\<close>

text \<open>
  C6. Whatever the key, and for a current direction that is one of the four arrows,
  \<open>process_key_input\<close> does not return the direction opposite to the current one; and a
  key that is not an arrow, or that is the arrow opposite to the current direction,
  leaves the current direction unchanged.
\<close>

theorem process_key_input_no_reversal:
  assumes "current_direction \<in> set arrows"
  shows "process_key_input key current_direction \<noteq> opposite current_direction
       \<and> (key \<notin> set arrows \<or> key = opposite current_direction
            \<longrightarrow> process_key_input key current_direction = current_direction)"
proof -
  from assms consider "current_direction = KEY_DOWN" | "current_direction = KEY_UP"
    | "current_direction = KEY_LEFT" | "current_direction = KEY_RIGHT"
    unfolding arrows_def by fastforce
  then show ?thesis
  proof cases
    case 1
    then show ?thesis by (simp add: process_key_input_def opposite_def arrows_def key_defs)
  next
    case 2
    then show ?thesis by (simp add: process_key_input_def opposite_def arrows_def key_defs)
  next
    case 3
    then show ?thesis by (simp add: process_key_input_def opposite_def arrows_def key_defs)
  next
    case 4
    then show ?thesis by (simp add: process_key_input_def opposite_def arrows_def key_defs)
  qed
qed

theorem process_key_input_no_reversal_witness:
  "KEY_RIGHT \<in> set arrows
   \<and> process_key_input KEY_LEFT KEY_RIGHT \<noteq> opposite KEY_RIGHT
   \<and> KEY_LEFT = opposite KEY_RIGHT
   \<and> process_key_input KEY_LEFT KEY_RIGHT = KEY_RIGHT"
proof -
  have a: "KEY_RIGHT \<in> set arrows" by (simp add: arrows_def)
  have b: "KEY_LEFT = opposite KEY_RIGHT" by (simp add: opposite_def key_defs)
  from process_key_input_no_reversal [OF a, of KEY_LEFT] a b show ?thesis by blast
qed

subsection \<open>New head\<close>

lemma add_item_fresh:
  "i < length xs \<Longrightarrow>
   add_item (s @ [IntList xs]) (length s) i d = Inr (s @ [IntList (xs[i := xs ! i + d])])"
  by (simp add: add_item_def)

lemma calculate_new_head_store_eq:
  assumes "sn < length s" and "s ! sn = RefList (a # refs)"
    and "a < length s" and "s ! a = IntList [r, c]"
  shows "calculate_new_head_store s sn d =
           Inr (length s, s @ [IntList [fst (shift d (r, c)), snd (shift d (r, c))]])"
  unfolding calculate_new_head_store_def Let_def
  using assms
  apply (simp only: if_True pyobj.case list.case)
  apply (simp add: add_item_fresh shift_def)
  done

lemma shift_arrows:
  "shift KEY_DOWN (r, c) = (r + 1, c)" "shift KEY_UP (r, c) = (r - 1, c)"
  "shift KEY_LEFT (r, c) = (r, c - 1)" "shift KEY_RIGHT (r, c) = (r, c + 1)"
  by (simp_all add: shift_def key_defs)

lemma shift_other: "d \<notin> set arrows \<Longrightarrow> shift d c = c"
  by (simp add: shift_def arrows_def)

text \<open>
  C10. For a snake whose first reference points to the cell \<open>[r, c]\<close>,
  \<open>calculate_new_head\<close> returns a reference to a newly allocated object; every object
  that existed before, the snake list and the head cell among them, is unchanged; the
  new object holds the head moved by one along the axis of the direction when the
  direction is an arrow key, and a copy of the head otherwise.
\<close>

theorem calculate_new_head_store_fresh:
  assumes "sn < length s" and "s ! sn = RefList (a # refs)"
    and "a < length s" and "s ! a = IntList [r, c]"
  shows "\<exists>s'. calculate_new_head_store s sn d = Inr (length s, s')
           \<and> length s' = length s + 1
           \<and> (\<forall>b < length s. s' ! b = s ! b)
           \<and> cell_at s' (length s) = Some (shift d (r, c))
           \<and> calculate_new_head ((r, c) # cells) d = Inr (shift d (r, c))
           \<and> (d = KEY_DOWN \<longrightarrow> shift d (r, c) = (r + 1, c))
           \<and> (d = KEY_UP \<longrightarrow> shift d (r, c) = (r - 1, c))
           \<and> (d = KEY_LEFT \<longrightarrow> shift d (r, c) = (r, c - 1))
           \<and> (d = KEY_RIGHT \<longrightarrow> shift d (r, c) = (r, c + 1))
           \<and> (d \<notin> set arrows \<longrightarrow> shift d (r, c) = (r, c))"
proof -
  let ?s' = "s @ [IntList [fst (shift d (r, c)), snd (shift d (r, c))]]"
  have 1: "calculate_new_head_store s sn d = Inr (length s, ?s')"
    using assms by (rule calculate_new_head_store_eq)
  have 2: "length ?s' = length s + 1" by simp
  have 3: "\<forall>b < length s. ?s' ! b = s ! b" by (simp add: nth_append)
  have 4: "cell_at ?s' (length s) = Some (shift d (r, c))" by (simp add: cell_at_def)
  have 5: "calculate_new_head ((r, c) # cells) d = Inr (shift d (r, c))" by simp
  have 6: "d = KEY_DOWN \<longrightarrow> shift d (r, c) = (r + 1, c)"
    and 7: "d = KEY_UP \<longrightarrow> shift d (r, c) = (r - 1, c)"
    and 8: "d = KEY_LEFT \<longrightarrow> shift d (r, c) = (r, c - 1)"
    and 9: "d = KEY_RIGHT \<longrightarrow> shift d (r, c) = (r, c + 1)"
    by (simp_all add: shift_arrows)
  have 10: "d \<notin> set arrows \<longrightarrow> shift d (r, c) = (r, c)"
    by (simp add: shift_other)
  show ?thesis
    by (intro exI conjI) (rule 1, rule 2, rule 3, rule 4, rule 5, rule 6, rule 7, rule 8,
      rule 9, rule 10)
qed

theorem calculate_new_head_store_fresh_witness:
  "\<exists>s'. calculate_new_head_store
           [IntList [5, 5], IntList [5, 4], IntList [5, 3], RefList [0, 1, 2]] 3 KEY_RIGHT
         = Inr (4, s')
       \<and> s' ! 0 = IntList [5, 5] \<and> s' ! 3 = RefList [0, 1, 2]
       \<and> cell_at s' 4 = Some (5, 6)"
proof -
  let ?s = "[IntList [5, 5], IntList [5, 4], IntList [5, 3], RefList [0, 1, 2]]"
  have h1: "3 < length ?s" by simp
  have h2: "?s ! 3 = RefList (0 # [1, 2])" by simp
  have h3: "0 < length ?s" by simp
  have h4: "?s ! 0 = IntList [5, 5]" by simp
  have len: "length ?s = 4" by simp
  from calculate_new_head_store_fresh [OF h1 h2 h3 h4, of KEY_RIGHT "[]", unfolded len]
  obtain s' where r: "calculate_new_head_store ?s 3 KEY_RIGHT = Inr (4, s')"
    and f: "\<forall>b < 4. s' ! b = ?s ! b"
    and c: "cell_at s' 4 = Some (shift KEY_RIGHT (5, 5))"
    by (elim exE conjE) (rule that; assumption)
  have f0: "s' ! 0 = IntList [5, 5]" using f [rule_format, of 0] by simp
  have f3: "s' ! 3 = RefList [0, 1, 2]" using f [rule_format, of 3] by simp
  have c': "cell_at s' 4 = Some (5, 6)" using c by (simp only: shift_arrows) simp
  show ?thesis by (intro exI conjI) (rule r, rule f0, rule f3, rule c')
qed

subsection \<open>Food placement\<close>

lemma randint_ok: "a \<le> b \<Longrightarrow> randint a b r = Inr (a + int r mod (b - a + 1))"
  by (simp add: randint_def)

lemma create_food_free:
  assumes "3 \<le> H" and "3 \<le> W" and "draw H W rnd i \<notin> set cells"
  shows "create_food H W cells rnd i = Some (Inr (draw H W rnd i, i + 2))"
proof -
  have a: "randint 1 (H - 2) (rnd i) = Inr (1 + int (rnd i) mod (H - 2))"
    using assms(1) by (simp add: randint_ok)
  have b: "randint 1 (W - 2) (rnd (Suc i)) = Inr (1 + int (rnd (Suc i)) mod (W - 2))"
    using assms(2) by (simp add: randint_ok)
  show ?thesis
    using assms(3) by (subst create_food.simps) (simp add: a b draw_def)
qed

lemma create_food_occupied:
  assumes "3 \<le> H" and "3 \<le> W" and "draw H W rnd i \<in> set cells"
  shows "create_food H W cells rnd i = create_food H W cells rnd (i + 2)"
proof -
  have a: "randint 1 (H - 2) (rnd i) = Inr (1 + int (rnd i) mod (H - 2))"
    using assms(1) by (simp add: randint_ok)
  have b: "randint 1 (W - 2) (rnd (Suc i)) = Inr (1 + int (rnd (Suc i)) mod (W - 2))"
    using assms(2) by (simp add: randint_ok)
  show ?thesis
    using assms(3) by (subst create_food.simps) (simp add: a b draw_def)
qed

lemma draw_interior:
  assumes "3 \<le> H" and "3 \<le> W"
  shows "interior H W (draw H W rnd i)"
proof -
  have "0 \<le> int (rnd i) mod (H - 2)" "int (rnd i) mod (H - 2) < H - 2"
    using assms(1) by simp_all
  moreover have "0 \<le> int (rnd (i + 1)) mod (W - 2)" "int (rnd (i + 1)) mod (W - 2) < W - 2"
    using assms(2) by simp_all
  ultimately show ?thesis by (simp add: interior_def draw_def)
qed

lemma create_food_returns:
  assumes "3 \<le> H" and "3 \<le> W" and "draw H W rnd (i + 2 * k) \<notin> set cells"
  shows "\<exists>c j. create_food H W cells rnd i = Some (Inr (c, j)) \<and> c \<notin> set cells \<and> interior H W c"
  using assms(3)
proof (induction k arbitrary: i)
  case 0
  then have "draw H W rnd i \<notin> set cells" by simp
  then show ?case
    using create_food_free [OF assms(1,2)] draw_interior [OF assms(1,2)] by metis
next
  case (Suc k)
  show ?case
  proof (cases "draw H W rnd i \<in> set cells")
    case True
    have "draw H W rnd ((i + 2) + 2 * k) \<notin> set cells" using Suc.prems by (simp add: add.commute add.left_commute)
    from Suc.IH [OF this] show ?thesis
      using create_food_occupied [OF assms(1,2) True] by simp
  next
    case False
    then show ?thesis
      using create_food_free [OF assms(1,2)] draw_interior [OF assms(1,2)] by metis
  qed
qed

lemma create_food_first_free:
  assumes "3 \<le> H" and "3 \<le> W"
    and "\<forall>j<k. draw H W rnd (i + 2 * j) \<in> set cells"
    and "draw H W rnd (i + 2 * k) \<notin> set cells"
  shows "create_food H W cells rnd i = Some (Inr (draw H W rnd (i + 2 * k), i + 2 * k + 2))"
  using assms(3,4)
proof (induction k arbitrary: i)
  case 0
  then have "draw H W rnd i \<notin> set cells" by simp
  from create_food_free [OF assms(1,2) this] show ?case by simp
next
  case (Suc k)
  have "draw H W rnd (i + 2 * 0) \<in> set cells" using Suc.prems(1) by blast
  then have occ: "draw H W rnd i \<in> set cells" by simp
  have shift: "i + 2 + 2 * j = i + 2 * Suc j" for j by simp
  have "\<forall>j<k. draw H W rnd ((i + 2) + 2 * j) \<in> set cells"
  proof (intro allI impI)
    fix j
    assume "j < k"
    then have "Suc j < Suc k" by simp
    from Suc.prems(1) [rule_format, OF this]
    show "draw H W rnd ((i + 2) + 2 * j) \<in> set cells" by (simp only: shift)
  qed
  moreover have "draw H W rnd ((i + 2) + 2 * k) \<notin> set cells"
    using Suc.prems(2) unfolding shift .
  ultimately have "create_food H W cells rnd (i + 2)
      = Some (Inr (draw H W rnd ((i + 2) + 2 * k), (i + 2) + 2 * k + 2))"
    by (rule Suc.IH)
  then show ?case
    unfolding create_food_occupied [OF assms(1,2) occ] shift by simp
qed

lemma first_free_draw:
  assumes "\<exists>k. draw H W rnd (i + 2 * k) \<notin> set cells"
  obtains k where "\<forall>j<k. draw H W rnd (i + 2 * j) \<in> set cells"
    and "draw H W rnd (i + 2 * k) \<notin> set cells"
proof -
  from assms obtain k where "draw H W rnd (i + 2 * k) \<notin> set cells
      \<and> (\<forall>j<k. \<not> draw H W rnd (i + 2 * j) \<notin> set cells)"
    unfolding exists_least_iff [of "\<lambda>k. draw H W rnd (i + 2 * k) \<notin> set cells"] by (elim exE)
  then have a: "\<forall>j<k. draw H W rnd (i + 2 * j) \<in> set cells"
    and b: "draw H W rnd (i + 2 * k) \<notin> set cells"
    by simp_all
  show ?thesis by (rule that [OF a b])
qed

lemma randint_bounds: "randint a b r = Inr n \<Longrightarrow> a \<le> n \<and> n \<le> b"
proof -
  assume r: "randint a b r = Inr n"
  then have ab: "a \<le> b" by (simp add: randint_def split: if_splits)
  then have n: "n = a + int r mod (b - a + 1)" using r by (simp add: randint_def)
  have "0 < b - a + 1" using ab by simp
  then have "0 \<le> int r mod (b - a + 1)" "int r mod (b - a + 1) < b - a + 1"
    by (rule pos_mod_sign, rule pos_mod_bound)
  then show ?thesis using n by linarith
qed

lemma create_food_sound:
  assumes "create_food H W cells rnd i = Some (Inr (c, j))"
  shows "c \<notin> set cells \<and> interior H W c"
proof -
  have "\<forall>c j. y = Inr (c, j) \<longrightarrow> c \<notin> set cells \<and> interior H W c"
    if "create_food H W cells rnd i = Some y" for y
  proof (rule create_food.raw_induct
      [where P = "\<lambda>H W cells rnd i y. \<forall>c j. y = Inr (c, j) \<longrightarrow> c \<notin> set cells \<and> interior H W c",
        OF _ that])
    fix cf :: "int \<Rightarrow> int \<Rightarrow> cell list \<Rightarrow> (nat \<Rightarrow> nat) \<Rightarrow> nat \<Rightarrow> (error + cell \<times> nat) option"
      and H W cells rnd i res
    assume IH: "\<And>H' W' cells' rnd' i' y. cf H' W' cells' rnd' i' = Some y \<Longrightarrow>
        \<forall>c j. y = Inr (c, j) \<longrightarrow> c \<notin> set cells' \<and> interior H' W' c"
    assume body: "(case randint 1 (H - 2) (rnd i) of
          Inl e \<Rightarrow> Some (Inl e)
        | Inr y \<Rightarrow>
            (case randint 1 (W - 2) (rnd (i + 1)) of
               Inl e \<Rightarrow> Some (Inl e)
             | Inr x \<Rightarrow>
                 if (y, x) \<notin> set cells then Some (Inr ((y, x), i + 2))
                 else cf H W cells rnd (i + 2))) = Some res"
    show "\<forall>c j. res = Inr (c, j) \<longrightarrow> c \<notin> set cells \<and> interior H W c"
    proof (cases "randint 1 (H - 2) (rnd i)")
      case (Inl e)
      then show ?thesis using body by auto
    next
      case y: (Inr y)
      show ?thesis
      proof (cases "randint 1 (W - 2) (rnd (i + 1))")
        case (Inl e)
        then show ?thesis using body y by auto
      next
        case x: (Inr x)
        show ?thesis
        proof (cases "(y, x) \<in> set cells")
          case True
          then have "cf H W cells rnd (i + 2) = Some res" using body x y by simp
          from IH [OF this] show ?thesis .
        next
          case False
          then have res: "res = Inr ((y, x), i + 2)" using body x y by simp
          have "interior H W (y, x)"
            using randint_bounds [OF y] randint_bounds [OF x] by (simp add: interior_def)
          then show ?thesis using res False by simp
        qed
      qed
    qed
  qed
  from this [OF assms] show ?thesis by simp
qed


text \<open>
  C5. When the occupied cells do not cover the interior and the random sequence is
  fair, \<open>create_food\<close> returns, and the cell it returns is not occupied and lies inside
  the interior; and whatever the sequence, a cell that it returns is not occupied and
  lies inside the interior.
\<close>

theorem create_food_free_interior:
  assumes "fair_from H W rnd i" and "\<exists>c. interior H W c \<and> c \<notin> set cells"
  shows "(\<exists>c j. create_food H W cells rnd i = Some (Inr (c, j))
              \<and> c \<notin> set cells \<and> interior H W c)
       \<and> (\<forall>i' c j. create_food H W cells rnd i' = Some (Inr (c, j))
              \<longrightarrow> c \<notin> set cells \<and> interior H W c)"
proof
  from assms(2) obtain c where c: "interior H W c" "c \<notin> set cells" by (elim exE conjE)
  from c(1) have H: "3 \<le> H" and W: "3 \<le> W" by (simp_all add: interior_def)
  from assms(1) c(1) obtain k where "draw H W rnd (i + 2 * k) = c"
    unfolding fair_from_def by (elim allE impE exE)
  then have "draw H W rnd (i + 2 * k) \<notin> set cells" using c(2) by simp
  from create_food_returns [OF H W this]
  show "\<exists>c j. create_food H W cells rnd i = Some (Inr (c, j))
              \<and> c \<notin> set cells \<and> interior H W c" .
next
  show "\<forall>i' c j. create_food H W cells rnd i' = Some (Inr (c, j))
              \<longrightarrow> c \<notin> set cells \<and> interior H W c"
    using create_food_sound by (intro allI impI)
qed

theorem create_food_free_interior_witness:
  "fair_from 3 4 (\<lambda>n. if n = 3 then 1 else 0) 0
   \<and> interior 3 4 (1, 2) \<and> (1, 2) \<notin> set [(1, 1) :: cell]
   \<and> (\<exists>c j. create_food 3 4 [(1, 1)] (\<lambda>n. if n = 3 then 1 else 0) 0 = Some (Inr (c, j))
              \<and> c \<notin> set [(1, 1)] \<and> interior 3 4 c)
   \<and> create_food 3 4 [(1, 1)] (\<lambda>n. if n = 3 then 1 else 0) 0 = Some (Inr ((1, 2), 4))"
proof -
  let ?rnd = "\<lambda>n::nat. if n = 3 then 1 else 0 :: nat"
  have d0: "draw 3 4 ?rnd 0 = (1, 1)" by (simp add: draw_def)
  have d2: "draw 3 4 ?rnd 2 = (1, 2)" by (simp add: draw_def)
  have fair: "fair_from 3 4 ?rnd 0"
    unfolding fair_from_def
  proof (intro allI impI)
    fix c :: cell
    assume "interior 3 4 c"
    then have "fst c = 1" "snd c = 1 \<or> snd c = 2" by (auto simp: interior_def)
    then have "c = (1, 1) \<or> c = (1, 2)" by (cases c) auto
    then show "\<exists>k. draw 3 4 ?rnd (0 + 2 * k) = c"
    proof
      assume "c = (1, 1)"
      then have "draw 3 4 ?rnd (0 + 2 * 0) = c" using d0 by simp
      then show ?thesis ..
    next
      assume "c = (1, 2)"
      moreover have "0 + 2 * (1::nat) = 2" by simp
      ultimately have "draw 3 4 ?rnd (0 + 2 * 1) = c" using d2 by (simp only:)
      then show ?thesis ..
    qed
  qed
  have int: "interior 3 4 (1, 2)" by (simp add: interior_def)
  have free: "(1, 2) \<notin> set [(1, 1) :: cell]" by simp
  have ex: "\<exists>c. interior 3 4 c \<and> c \<notin> set [(1, 1)]" using int free by blast
  have val: "create_food 3 4 [(1, 1)] ?rnd 0 = Some (Inr ((1, 2), 4))"
  proof -
    have s1: "create_food 3 4 [(1, 1)] ?rnd 0 = create_food 3 4 [(1, 1)] ?rnd (0 + 2)"
      by (rule create_food_occupied) (simp_all add: d0)
    have s2: "create_food 3 4 [(1, 1)] ?rnd 2 = Some (Inr (draw 3 4 ?rnd 2, 2 + 2))"
      by (rule create_food_free) (simp_all add: d2)
    have e: "(0::nat) + 2 = 2" "(2::nat) + 2 = 4" by simp_all
    show ?thesis by (simp only: s1 e s2 d2)
  qed
  from create_food_free_interior [OF fair ex] fair int free val show ?thesis by blast
qed

subsection \<open>One iteration of the game loop\<close>

lemma turn_fields:
  "snake (turn g k) = snake g" "h (turn g k) = h g" "w (turn g k) = w g"
  "food (turn g k) = food g" "score (turn g k) = score g" "rng (turn g k) = rng g"
  "phase (turn g k) = phase g" "sh (turn g k) = sh g" "sw (turn g k) = sw g"
  "snake_x (turn g k) = snake_x g" "snake_y (turn g k) = snake_y g"
  "stdscr_delay (turn g k) = stdscr_delay g" "win_delay (turn g k) = win_delay g"
  by (simp_all add: turn_def)

lemma tick_quit: "tick rnd g ord_q = Some (Inr (g\<lparr>phase := Terminated\<rparr>))"
  by (simp add: tick_def ord_q_def)

lemma tick_collision:
  assumes "next_key \<noteq> ord_q"
    and "calculate_new_head (snake g) (direction (turn g next_key)) = Inr new_head"
    and "collides (h g) (w g) new_head (snake g)"
  shows "tick rnd g next_key = Some (Inr ((turn g next_key)\<lparr>phase := GameOver (score g)\<rparr>))"
  using assms by (simp add: tick_def Let_def turn_fields)

lemma tick_move:
  assumes "next_key \<noteq> ord_q"
    and "calculate_new_head (snake g) (direction (turn g next_key)) = Inr new_head"
    and "\<not> collides (h g) (w g) new_head (snake g)"
    and "new_head \<noteq> food g"
  shows "tick rnd g next_key =
           Some (Inr ((turn g next_key)\<lparr>snake := butlast (new_head # snake g)\<rparr>))"
  using assms by (simp add: tick_def Let_def turn_fields)

lemma tick_eat:
  assumes "next_key \<noteq> ord_q"
    and "calculate_new_head (snake g) (direction (turn g next_key)) = Inr new_head"
    and "\<not> collides (h g) (w g) new_head (snake g)"
    and "new_head = food g"
    and "create_food (h g) (w g) (new_head # snake g) rnd (rng g) = Some (Inr (f, i))"
  shows "tick rnd g next_key =
           Some (Inr ((turn g next_key)
             \<lparr>snake := new_head # snake g, food := f, rng := i, score := score g + 1\<rparr>))"
  using assms by (simp add: tick_def Let_def turn_fields)



lemma collides_iff:
  "collides H W c cells \<longleftrightarrow> on_border H W c \<or> c \<in> set cells"
  by (simp add: collides_def on_border_def)






text \<open>
  C3. In a tick that is not a quit and whose new head collides, the program enters
  \<open>game_over\<close> with the current score as its argument, and the snake, the score and the
  food are what they were before the tick.
\<close>

theorem tick_collision_state:
  assumes "next_key \<noteq> ord_q"
    and "calculate_new_head (snake g) (direction (turn g next_key)) = Inr new_head"
    and "collides (h g) (w g) new_head (snake g)"
  shows "\<exists>g'. tick rnd g next_key = Some (Inr g') \<and> phase g' = GameOver (score g)
           \<and> snake g' = snake g \<and> score g' = score g \<and> food g' = food g"
proof -
  let ?g' = "(turn g next_key)\<lparr>phase := GameOver (score g)\<rparr>"
  have "tick rnd g next_key = Some (Inr ?g')"
    by (rule tick_collision [OF assms])
  moreover have "phase ?g' = GameOver (score g)" by simp
  moreover have "snake ?g' = snake g" "score ?g' = score g" "food ?g' = food g"
    by (simp_all add: turn_fields)
  ultimately show ?thesis by blast
qed

theorem tick_collision_state_witness:
  "\<exists>g'. tick (\<lambda>_. 0)
      \<lparr>sh = 10, sw = 30, h = 8, w = 28, snake_x = 7, snake_y = 4,
       snake = [(1, 5), (2, 5), (3, 5)], direction = KEY_UP,
       food = (3, 3), score = 4, stdscr_delay = 100, win_delay = 100, rng = 0,
       phase = Playing\<rparr> (- 1) = Some (Inr g')
    \<and> phase g' = GameOver 4 \<and> snake g' = [(1, 5), (2, 5), (3, 5)]
    \<and> score g' = 4 \<and> food g' = (3, 3)"
proof -
  let ?g = "\<lparr>sh = 10, sw = 30, h = 8, w = 28, snake_x = 7, snake_y = 4,
       snake = [(1, 5), (2, 5), (3, 5)], direction = KEY_UP,
       food = (3, 3), score = 4, stdscr_delay = 100, win_delay = 100, rng = 0,
       phase = Playing\<rparr>"
  let ?rnd = "\<lambda>_::nat. 0::nat"
  have a1: "- 1 \<noteq> ord_q" by (simp add: ord_q_def)
  have a2: "calculate_new_head (snake ?g) (direction (turn ?g (- 1))) = Inr (0, 5)"
    by (simp add: turn_def shift_def key_defs)
  have a3: "collides (h ?g) (w ?g) (0, 5) (snake ?g)"
    by (simp add: collides_def)
  have f: "score ?g = 4" "snake ?g = [(1, 5), (2, 5), (3, 5)]" "food ?g = (3, 3)" by simp_all
  from tick_collision_state [OF a1 a2 a3, of ?rnd, unfolded f] show ?thesis .
qed

subsection \<open>The run of the program\<close>

declare run.simps [simp del]

lemma run_Nil: "run rnd g [] = Some (Inr g)"
  by (subst run.simps) simp

lemma run_Terminated: "phase g = Terminated \<Longrightarrow> run rnd g ks = Some (Inr g)"
  by (subst run.simps) simp

lemma getch_timeout: "0 \<le> d \<Longrightarrow> getch d (k # ks) = Some (k, ks)"
  by simp

lemma getch_blocking: "d < 0 \<Longrightarrow> getch d ks = Some (k, rest) \<Longrightarrow> k \<noteq> - 1"
  by (induction ks) (auto split: if_splits)

lemma delay_of_session: "session sh0 sw0 g \<Longrightarrow> delay_of g = 100"
  by (simp add: session_def delay_of_def split: phase.split)

lemma run_Cons:
  assumes "phase g \<noteq> Terminated" and "delay_of g = 100"
  shows "run rnd g (key # ks) =
           (case step rnd g key of
              None \<Rightarrow> None
            | Some (Inl e) \<Rightarrow> Some (Inl e)
            | Some (Inr g') \<Rightarrow> run rnd g' ks)"
  using assms by (subst run.simps) simp

lemma spawn_ok:
  assumes "8 \<le> H" and "28 \<le> W"
  shows "snake_ok H W (spawn (H div 2) (W div 4))"
proof -
  have x: "7 \<le> W div 4" "W div 4 \<le> W - 2" using assms(2) by presburger+
  have y: "4 \<le> H div 2" "H div 2 \<le> H - 2" using assms(1) by presburger+
  show ?thesis using x y by (simp add: snake_ok_def spawn_def interior_def)
qed

lemma spawn_length: "length (spawn y x) = 3"
  by (simp add: spawn_def)


lemma shift_cases:
  "shift d c = (fst c + 1, snd c) \<or> shift d c = (fst c - 1, snd c)
   \<or> shift d c = (fst c, snd c - 1) \<or> shift d c = (fst c, snd c + 1) \<or> shift d c = c"
  by (simp add: shift_def)

lemma shift_interior:
  assumes "interior H W c" and "\<not> on_border H W (shift d c)" and "shift d c \<noteq> c"
  shows "interior H W (shift d c)"
proof -
  have *: "interior H W (y, x)"
    if "\<not> on_border H W (y, x)" and "\<bar>y - fst c\<bar> + \<bar>x - snd c\<bar> = 1" for y x
    using that assms(1) unfolding interior_def on_border_def fst_conv snd_conv by linarith
  from shift_cases [of d c] assms(3)
  consider "shift d c = (fst c + 1, snd c)" | "shift d c = (fst c - 1, snd c)"
    | "shift d c = (fst c, snd c - 1)" | "shift d c = (fst c, snd c + 1)"
    by blast
  then show ?thesis
  proof cases
    case 1 with assms(2) show ?thesis by (simp add: *)
  next
    case 2 with assms(2) show ?thesis by (simp add: *)
  next
    case 3 with assms(2) show ?thesis by (simp add: *)
  next
    case 4 with assms(2) show ?thesis by (simp add: *)
  qed
qed

lemma snake_ok_grow:
  assumes "snake_ok H W (c # cs)" and "\<not> collides H W (shift d c) (c # cs)"
  shows "snake_ok H W (shift d c # c # cs)" and "snake_ok H W (butlast (shift d c # c # cs))"
proof -
  from assms(2) have nb: "\<not> on_border H W (shift d c)" and nm: "shift d c \<notin> set (c # cs)"
    using collides_iff [of H W "shift d c" "c # cs"] by simp_all
  from nm have "shift d c \<noteq> c" by auto
  with assms(1) nb have "interior H W (shift d c)"
    by (intro shift_interior) (simp_all add: snake_ok_def)
  with assms(1) nm show g: "snake_ok H W (shift d c # c # cs)"
    by (simp add: snake_ok_def)
  have "distinct (butlast (shift d c # c # cs))"
    using g unfolding snake_ok_def by (intro distinct_butlast) simp
  moreover have "\<forall>x \<in> set (butlast (shift d c # c # cs)). interior H W x"
    using g unfolding snake_ok_def by (meson in_set_butlastD)
  ultimately show "snake_ok H W (butlast (shift d c # c # cs))"
    unfolding snake_ok_def by simp
qed

lemma tick_cases:
  assumes "tick rnd g key = Some (Inr g')"
  obtains (quit) "key = ord_q" "g' = g\<lparr>phase := Terminated\<rparr>"
  | (collide) c cs where "key \<noteq> ord_q" "snake g = c # cs"
      "collides (h g) (w g) (shift (direction (turn g key)) c) (snake g)"
      "g' = (turn g key)\<lparr>phase := GameOver (score g)\<rparr>"
  | (move) c cs where "key \<noteq> ord_q" "snake g = c # cs"
      "\<not> collides (h g) (w g) (shift (direction (turn g key)) c) (snake g)"
      "g' = (turn g key)\<lparr>snake := butlast (shift (direction (turn g key)) c # snake g)\<rparr>"
  | (eat) c cs f i where "key \<noteq> ord_q" "snake g = c # cs"
      "\<not> collides (h g) (w g) (shift (direction (turn g key)) c) (snake g)"
      "create_food (h g) (w g) (shift (direction (turn g key)) c # snake g) rnd (rng g)
         = Some (Inr (f, i))"
      "g' = (turn g key)\<lparr>snake := shift (direction (turn g key)) c # snake g,
          food := f, rng := i, score := score g + 1\<rparr>"
proof (cases "key = ord_q")
  case True
  then show ?thesis using assms quit by (simp add: tick_quit)
next
  case q: False
  show ?thesis
  proof (cases "snake g")
    case Nil
    then show ?thesis using assms q by (simp add: tick_def Let_def turn_fields)
  next
    case (Cons c cs)
    let ?nh = "shift (direction (turn g key)) c"
    have nh: "calculate_new_head (snake g) (direction (turn g key)) = Inr ?nh"
      using Cons by simp
    show ?thesis
    proof (cases "collides (h g) (w g) ?nh (snake g)")
      case True
      from tick_collision [OF q nh True, of rnd] assms collide [OF q Cons True]
      show ?thesis by simp
    next
      case nc: False
      show ?thesis
      proof (cases "?nh = food g")
        case False
        from tick_move [OF q nh nc False, of rnd] assms move [OF q Cons nc]
        show ?thesis by simp
      next
        case True
        show ?thesis
        proof (cases "create_food (h g) (w g) (?nh # snake g) rnd (rng g)")
          case None
          then show ?thesis using assms q nh nc True by (simp add: tick_def Let_def turn_fields)
        next
          case (Some r)
          show ?thesis
          proof (cases r)
            case (Inl e)
            then show ?thesis
              using assms q nh nc True Some by (simp add: tick_def Let_def turn_fields)
          next
            case (Inr p)
            obtain f i where p: "p = (f, i)" by (cases p)
            have cf: "create_food (h g) (w g) (?nh # snake g) rnd (rng g) = Some (Inr (f, i))"
              using Some Inr p by simp
            from tick_eat [OF q nh nc True cf] assms eat [OF q Cons nc cf]
            show ?thesis by simp
          qed
        qed
      qed
    qed
  qed
qed

lemma session_snake_ok: "session sh0 sw0 g \<Longrightarrow> snake_ok (h g) (w g) (snake g)"
  by (simp add: session_def)

lemma tick_session:
  assumes "session sh0 sw0 g" and "tick rnd g key = Some (Inr g')"
  shows "session sh0 sw0 g'"
  using assms(2)
proof (cases rule: tick_cases)
  case quit
  then show ?thesis using assms(1) by (simp add: session_def)
next
  case (collide c cs)
  then show ?thesis using assms(1) by (simp add: session_def turn_fields)
next
  case (move c cs)
  have hw: "h g = sh0 - 2" "w g = sw0 - 2" using assms(1) by (simp_all add: session_def)
  have "snake_ok (sh0 - 2) (sw0 - 2) (c # cs)"
    using assms(1) move(2) by (simp add: session_def)
  from snake_ok_grow(2) [OF this] move(2,3) hw
  have "snake_ok (sh0 - 2) (sw0 - 2) (butlast (shift (direction (turn g key)) c # c # cs))"
    by simp
  then show ?thesis using assms(1) move(2,4) by (simp add: session_def turn_fields)
next
  case (eat c cs f i)
  have hw: "h g = sh0 - 2" "w g = sw0 - 2" using assms(1) by (simp_all add: session_def)
  have "snake_ok (sh0 - 2) (sw0 - 2) (c # cs)"
    using assms(1) eat(2) by (simp add: session_def)
  from snake_ok_grow(1) [OF this] eat(2,3) hw
  have "snake_ok (sh0 - 2) (sw0 - 2) (shift (direction (turn g key)) c # c # cs)" by simp
  then show ?thesis using assms(1) eat(2,5) by (simp add: session_def turn_fields)
qed


lemma session_bounds: "session sh0 sw0 g \<Longrightarrow> 3 \<le> h g \<and> 3 \<le> w g"
  by (simp add: session_def)

lemma session_spawn:
  "session sh0 sw0 g \<Longrightarrow> spawn (snake_y g) (snake_x g) = spawn ((sh0 - 2) div 2) ((sw0 - 2) div 4)"
  by (simp add: session_def)

lemma restart_eq:
  assumes "create_food (h g) (w g) (spawn (snake_y g) (snake_x g)) rnd (rng g) = Some (Inr (f, i))"
  shows "restart rnd g =
           Some (Inr (g\<lparr>snake := spawn (snake_y g) (snake_x g), direction := KEY_RIGHT,
                        food := f, rng := i, score := 0, phase := Playing\<rparr>))"
  using assms by (simp add: restart_def Let_def)

lemma restart_cases:
  assumes "restart rnd g = Some (Inr g')"
  obtains f i where
    "create_food (h g) (w g) (spawn (snake_y g) (snake_x g)) rnd (rng g) = Some (Inr (f, i))"
    "g' = g\<lparr>snake := spawn (snake_y g) (snake_x g), direction := KEY_RIGHT,
            food := f, rng := i, score := 0, phase := Playing\<rparr>"
proof (cases "create_food (h g) (w g) (spawn (snake_y g) (snake_x g)) rnd (rng g)")
  case None
  then show ?thesis using assms by (simp add: restart_def Let_def)
next
  case (Some r)
  show ?thesis
  proof (cases r)
    case (Inl e)
    then show ?thesis using assms Some by (simp add: restart_def Let_def)
  next
    case (Inr p)
    obtain f i where p: "p = (f, i)" by (cases p)
    have cf: "create_food (h g) (w g) (spawn (snake_y g) (snake_x g)) rnd (rng g)
                = Some (Inr (f, i))"
      using Some Inr p by simp
    from restart_eq [OF cf] assms that [OF cf] show ?thesis by simp
  qed
qed

lemma restart_session:
  assumes "session sh0 sw0 g" and "restart rnd g = Some (Inr g')"
  shows "session sh0 sw0 g'"
  using assms(2)
proof (cases rule: restart_cases)
  case (1 f i)
  have "snake_ok (sh0 - 2) (sw0 - 2) (spawn ((sh0 - 2) div 2) ((sw0 - 2) div 4))"
    using assms(1) by (intro spawn_ok) (simp_all add: session_def)
  moreover have "spawn ((sh0 - 2) div 2) ((sw0 - 2) div 4) \<noteq> []" by (simp add: spawn_def)
  ultimately show ?thesis
    using assms(1) 1(2) session_spawn [OF assms(1)] by (simp add: session_def)
qed

lemma step_session:
  assumes "session sh0 sw0 g" and "step rnd g key = Some (Inr g')"
  shows "session sh0 sw0 g'"
proof (cases "phase g")
  case Instructions
  then show ?thesis using assms by (auto simp: step_def show_instructions_def session_def)
next
  case Playing
  then show ?thesis using assms tick_session by (simp add: step_def)
next
  case (GameOver s)
  show ?thesis
  proof (cases "game_over_key key")
    case None
    then show ?thesis using assms GameOver by (simp add: step_def)
  next
    case (Some b)
    show ?thesis
    proof (cases b)
      case True
      then show ?thesis using assms GameOver Some restart_session by (simp add: step_def)
    next
      case False
      then show ?thesis using assms GameOver Some by (auto simp: step_def session_def)
    qed
  qed
next
  case Terminated
  then show ?thesis using assms by (simp add: step_def)
qed

lemma run_session:
  assumes "session sh0 sw0 g" and "run rnd g ks = Some (Inr g')"
  shows "session sh0 sw0 g'"
  using assms
proof (induction ks arbitrary: g)
  case Nil
  then show ?case by (simp add: run_Nil)
next
  case (Cons key ks)
  show ?case
  proof (cases "phase g = Terminated")
    case True
    then show ?thesis using Cons.prems by (simp add: run_Terminated)
  next
    case False
    note r = run_Cons [OF False delay_of_session [OF Cons.prems(1)], of rnd key ks]
    show ?thesis
    proof (cases "step rnd g key")
      case None
      then show ?thesis using r Cons.prems(2) by simp
    next
      case (Some x)
      show ?thesis
      proof (cases x)
        case (Inl e)
        then show ?thesis using r Some Cons.prems(2) by simp
      next
        case (Inr g1)
        have "session sh0 sw0 g1" using step_session [OF Cons.prems(1)] Some Inr by simp
        moreover have "run rnd g1 ks = Some (Inr g')" using r Some Inr Cons.prems(2) by simp
        ultimately show ?thesis by (rule Cons.IH)
      qed
    qed
  qed
qed

lemma addstr_too_small:
  "addstr sh0 sw0 0 0 ''Terminal too small. Resize and try again.'' =
     (if sh0 * sw0 \<le> 41 then Inl CursesError
      else Inr (AddStr 0 0 ''Terminal too small. Resize and try again.''))"
  by (simp add: addstr_def)

lemma main_start_too_small:
  "sh0 < 10 \<or> sw0 < 30 \<Longrightarrow> 41 < sh0 * sw0 \<Longrightarrow>
   main_start rnd sh0 sw0 =
     Some (Inr (TooSmall
       [Clear, AddStr 0 0 ''Terminal too small. Resize and try again.'', Refresh, Sleep 2]))"
  by (simp add: main_start_def addstr_too_small)

lemma main_start_raises:
  "sh0 < 10 \<or> sw0 < 30 \<Longrightarrow> sh0 * sw0 \<le> 41 \<Longrightarrow> main_start rnd sh0 sw0 = Some (Inl CursesError)"
  by (simp add: main_start_def addstr_too_small)

lemma main_start_not_started:
  "sh0 < 10 \<or> sw0 < 30 \<Longrightarrow> main_start rnd sh0 sw0 \<noteq> Some (Inr (Started g0))"
  by (cases "sh0 * sw0 \<le> 41") (simp_all add: main_start_def addstr_too_small)

lemma main_start_eq:
  assumes "10 \<le> sh0" and "30 \<le> sw0"
    and "create_food (sh0 - 2) (sw0 - 2) (spawn ((sh0 - 2) div 2) ((sw0 - 2) div 4)) rnd 0
           = Some (Inr (f, i))"
  shows "main_start rnd sh0 sw0 =
     Some (Inr (Started
       \<lparr>sh = sh0, sw = sw0, h = sh0 - 2, w = sw0 - 2,
        snake_x = (sw0 - 2) div 4, snake_y = (sh0 - 2) div 2,
        snake = spawn ((sh0 - 2) div 2) ((sw0 - 2) div 4), direction = KEY_RIGHT,
        food = f, score = 0, stdscr_delay = 100, win_delay = 100, rng = i,
        phase = Instructions\<rparr>))"
  using assms by (simp add: main_start_def Let_def)

lemma main_start_cases:
  assumes "main_start rnd sh0 sw0 = Some (Inr (Started g0))"
  obtains f i where "10 \<le> sh0" "30 \<le> sw0"
    "create_food (sh0 - 2) (sw0 - 2) (spawn ((sh0 - 2) div 2) ((sw0 - 2) div 4)) rnd 0
       = Some (Inr (f, i))"
    "g0 = \<lparr>sh = sh0, sw = sw0, h = sh0 - 2, w = sw0 - 2,
        snake_x = (sw0 - 2) div 4, snake_y = (sh0 - 2) div 2,
        snake = spawn ((sh0 - 2) div 2) ((sw0 - 2) div 4), direction = KEY_RIGHT,
        food = f, score = 0, stdscr_delay = 100, win_delay = 100, rng = i,
        phase = Instructions\<rparr>"
proof -
  have "\<not> (sh0 < 10 \<or> sw0 < 30)"
  proof
    assume "sh0 < 10 \<or> sw0 < 30"
    from main_start_not_started [OF this, of rnd g0] assms show False by simp
  qed
  then have big: "10 \<le> sh0" "30 \<le> sw0" by simp_all
  let ?cf = "create_food (sh0 - 2) (sw0 - 2) (spawn ((sh0 - 2) div 2) ((sw0 - 2) div 4)) rnd 0"
  show ?thesis
  proof (cases ?cf)
    case None
    then show ?thesis using assms big by (simp add: main_start_def Let_def)
  next
    case (Some r)
    show ?thesis
    proof (cases r)
      case (Inl e)
      then show ?thesis using assms big Some by (simp add: main_start_def Let_def)
    next
      case (Inr p)
      obtain f i where p: "p = (f, i)" by (cases p)
      have cf: "?cf = Some (Inr (f, i))" using Some Inr p by simp
      from main_start_eq [OF big cf] assms that [OF big cf] show ?thesis by simp
    qed
  qed
qed

lemma main_start_session:
  assumes "main_start rnd sh0 sw0 = Some (Inr (Started g0))"
  shows "session sh0 sw0 g0" and "phase g0 = Instructions"
    and "snake g0 = spawn ((sh0 - 2) div 2) ((sw0 - 2) div 4)"
  using assms
proof (atomize (full), cases rule: main_start_cases)
  case (1 f i)
  have "snake_ok (sh0 - 2) (sw0 - 2) (spawn ((sh0 - 2) div 2) ((sw0 - 2) div 4))"
    using 1(1,2) by (intro spawn_ok) simp_all
  moreover have "spawn ((sh0 - 2) div 2) ((sw0 - 2) div 4) \<noteq> []" by (simp add: spawn_def)
  ultimately show "session sh0 sw0 g0 \<and> phase g0 = Instructions
      \<and> snake g0 = spawn ((sh0 - 2) div 2) ((sw0 - 2) div 4)"
    using 1 by (simp add: session_def)
qed

lemma main_cases:
  assumes "main rnd sh0 sw0 ks = Some (Inr (Started g))"
  obtains g0 where "main_start rnd sh0 sw0 = Some (Inr (Started g0))"
    and "run rnd g0 ks = Some (Inr g)"
proof (cases "main_start rnd sh0 sw0")
  case None
  then show ?thesis using assms by (simp add: main_def)
next
  case (Some r)
  show ?thesis
  proof (cases r)
    case (Inl e)
    then show ?thesis using assms Some by (simp add: main_def)
  next
    case (Inr st)
    show ?thesis
    proof (cases st)
      case (TooSmall evs)
      then show ?thesis using assms Some Inr by (simp add: main_def)
    next
      case (Started g0)
      have ms: "main_start rnd sh0 sw0 = Some (Inr (Started g0))" using Some Inr Started by simp
      have "run rnd g0 ks = Some (Inr g)"
        using assms ms by (simp add: main_def split: option.splits sum.splits)
      with ms show ?thesis by (rule that)
    qed
  qed
qed

lemma step_instructions:
  "phase g = Instructions \<Longrightarrow> step rnd g key = Some (Inr (g\<lparr>phase := Playing\<rparr>))"
  by (simp add: step_def show_instructions_def)

lemma step_game_over_q:
  "phase g = GameOver s \<Longrightarrow> step rnd g ord_q = Some (Inr (g\<lparr>phase := Terminated\<rparr>))"
  by (simp add: step_def game_over_key_def key_defs)

lemma step_game_over_r: "phase g = GameOver s \<Longrightarrow> step rnd g ord_r = restart rnd g"
  by (simp add: step_def game_over_key_def)

subsection \<open>A run on the smallest terminal\<close>

lemma start_10_30:
  "main_start (\<lambda>_. 0) 10 30 =
     Some (Inr (Started (game_10_30 [(4, 7), (4, 6), (4, 5)] KEY_RIGHT (1, 1) 0 2 Instructions)))"
proof -
  have d: "draw 8 28 (\<lambda>_. 0) 0 = (1, 1)" by (simp add: draw_def)
  have "create_food 8 28 (spawn 4 7) (\<lambda>_. 0) 0 = Some (Inr (draw 8 28 (\<lambda>_. 0) 0, 0 + 2))"
    by (rule create_food_free) (simp_all add: d spawn_def)
  then have cf: "create_food (10 - 2) (30 - 2) (spawn ((10 - 2) div 2) ((30 - 2) div 4)) (\<lambda>_. 0) 0
      = Some (Inr ((1, 1), 2))"
    by (simp add: d)
  have "(10::int) \<le> 10" "(30::int) \<le> 30" by simp_all
  from main_start_eq [OF this cf] show ?thesis by (simp add: game_10_30_def spawn_def)
qed

lemma run_10_30:
  assumes "p \<noteq> Terminated"
    and "step rnd (game_10_30 cells d f sc r p) key = Some (Inr g')"
  shows "run rnd (game_10_30 cells d f sc r p) (key # ks) = run rnd g' ks"
proof -
  have "phase (game_10_30 cells d f sc r p) \<noteq> Terminated"
    using assms(1) by (simp add: game_10_30_def)
  moreover have "delay_of (game_10_30 cells d f sc r p) = 100"
    by (simp add: delay_of_def game_10_30_def split: phase.split)
  ultimately show ?thesis using assms(2) by (simp add: run_Cons)
qed

lemma step_10_30_instructions:
  "step rnd (game_10_30 cells d f sc r Instructions) key
     = Some (Inr (game_10_30 cells d f sc r Playing))"
  by (simp add: step_def show_instructions_def game_10_30_def)

lemma step_10_30_move:
  assumes "key \<noteq> ord_q" and "d' = (if key = - 1 then d else process_key_input key d)"
    and "\<not> collides 8 28 (shift d' c) (c # cs)" and "shift d' c \<noteq> f"
  shows "step rnd (game_10_30 (c # cs) d f sc r Playing) key
     = Some (Inr (game_10_30 (shift d' c # butlast (c # cs)) d' f sc r Playing))"
proof -
  let ?g = "game_10_30 (c # cs) d f sc r Playing"
  have dir: "direction (turn ?g key) = d'"
    using assms(2) by (simp add: turn_def game_10_30_def)
  have nh: "calculate_new_head (snake ?g) (direction (turn ?g key)) = Inr (shift d' c)"
    by (simp add: dir) (simp add: game_10_30_def)
  have nc: "\<not> collides (h ?g) (w ?g) (shift d' c) (snake ?g)"
    using assms(3) by (simp add: game_10_30_def)
  have nf: "shift d' c \<noteq> food ?g" using assms(4) by (simp add: game_10_30_def)
  have "(turn ?g key)\<lparr>snake := butlast (shift d' c # snake ?g)\<rparr>
          = game_10_30 (shift d' c # butlast (c # cs)) d' f sc r Playing"
    using assms(2) by (simp add: turn_def game_10_30_def)
  with tick_move [OF assms(1) nh nc nf, of rnd] have "tick rnd ?g key
      = Some (Inr (game_10_30 (shift d' c # butlast (c # cs)) d' f sc r Playing))"
    by simp
  then show ?thesis by (simp add: step_def game_10_30_def)
qed

lemma step_10_30_collide:
  assumes "key \<noteq> ord_q" and "d' = (if key = - 1 then d else process_key_input key d)"
    and "collides 8 28 (shift d' c) (c # cs)"
  shows "step rnd (game_10_30 (c # cs) d f sc r Playing) key
     = Some (Inr (game_10_30 (c # cs) d' f sc r (GameOver sc)))"
proof -
  let ?g = "game_10_30 (c # cs) d f sc r Playing"
  have dir: "direction (turn ?g key) = d'"
    using assms(2) by (simp add: turn_def game_10_30_def)
  have nh: "calculate_new_head (snake ?g) (direction (turn ?g key)) = Inr (shift d' c)"
    by (simp add: dir) (simp add: game_10_30_def)
  have nc: "collides (h ?g) (w ?g) (shift d' c) (snake ?g)"
    using assms(3) by (simp add: game_10_30_def)
  have "(turn ?g key)\<lparr>phase := GameOver (score ?g)\<rparr>
          = game_10_30 (c # cs) d' f sc r (GameOver sc)"
    using assms(2) by (simp add: turn_def game_10_30_def)
  with tick_collision [OF assms(1) nh nc, of rnd] have "tick rnd ?g key
      = Some (Inr (game_10_30 (c # cs) d' f sc r (GameOver sc)))"
    by simp
  then show ?thesis by (simp add: step_def game_10_30_def)
qed

lemma run_10_30_one_tick:
  "run (\<lambda>_. 0) (game_10_30 [(4, 7), (4, 6), (4, 5)] KEY_RIGHT (1, 1) 0 2 Instructions) [- 1, - 1]
     = Some (Inr (game_10_30 [(4, 8), (4, 7), (4, 6)] KEY_RIGHT (1, 1) 0 2 Playing))"
proof -
  let ?rnd = "\<lambda>_::nat. 0::nat"
  have s: "shift KEY_RIGHT (4, 7) = (4, 8)" by (simp add: shift_arrows)
  have t: "step ?rnd (game_10_30 [(4, 7), (4, 6), (4, 5)] KEY_RIGHT (1, 1) 0 2 Playing) (- 1)
      = Some (Inr (game_10_30 (shift KEY_RIGHT (4, 7) # butlast [(4, 7), (4, 6), (4, 5)])
          KEY_RIGHT (1, 1) 0 2 Playing))"
    by (rule step_10_30_move) (simp_all add: s collides_def ord_q_def)
  show ?thesis
    by (simp add: run_10_30 [OF _ step_10_30_instructions] run_10_30 [OF _ t] run_Nil s)
qed

lemma run_10_30_game_over:
  "run rnd (game_10_30 [(4, 7), (4, 6), (4, 5)] KEY_RIGHT (1, 1) 0 2 Instructions)
       [- 1, KEY_DOWN, - 1, - 1]
     = Some (Inr (game_10_30 [(6, 7), (5, 7), (4, 7)] KEY_DOWN (1, 1) 0 2 (GameOver 0)))"
proof -
  have p: "process_key_input KEY_DOWN KEY_RIGHT = KEY_DOWN"
    by (simp add: process_key_input_def key_defs)
  have kq: "KEY_DOWN \<noteq> ord_q" "- 1 \<noteq> ord_q" "KEY_DOWN \<noteq> - 1" by (simp_all add: key_defs)
  have s: "shift KEY_DOWN (4, 7) = (5, 7)" "shift KEY_DOWN (5, 7) = (6, 7)"
    "shift KEY_DOWN (6, 7) = (7, 7)"
    by (simp_all add: shift_arrows)
  have t1: "step rnd (game_10_30 [(4, 7), (4, 6), (4, 5)] KEY_RIGHT (1, 1) 0 2 Playing) KEY_DOWN
      = Some (Inr (game_10_30 (shift KEY_DOWN (4, 7) # butlast [(4, 7), (4, 6), (4, 5)])
          KEY_DOWN (1, 1) 0 2 Playing))"
    by (rule step_10_30_move) (simp_all add: s p kq collides_def)
  have t2: "step rnd (game_10_30 [(5, 7), (4, 7), (4, 6)] KEY_DOWN (1, 1) 0 2 Playing) (- 1)
      = Some (Inr (game_10_30 (shift KEY_DOWN (5, 7) # butlast [(5, 7), (4, 7), (4, 6)])
          KEY_DOWN (1, 1) 0 2 Playing))"
    by (rule step_10_30_move) (simp_all add: s kq collides_def)
  have t3: "step rnd (game_10_30 [(6, 7), (5, 7), (4, 7)] KEY_DOWN (1, 1) 0 2 Playing) (- 1)
      = Some (Inr (game_10_30 [(6, 7), (5, 7), (4, 7)] KEY_DOWN (1, 1) 0 2 (GameOver 0)))"
    by (rule step_10_30_collide) (simp_all add: s kq collides_def)
  have t1': "step rnd (game_10_30 [(4, 7), (4, 6), (4, 5)] KEY_RIGHT (1, 1) 0 2 Playing) KEY_DOWN
      = Some (Inr (game_10_30 [(5, 7), (4, 7), (4, 6)] KEY_DOWN (1, 1) 0 2 Playing))"
    using t1 by (simp add: s)
  have t2': "step rnd (game_10_30 [(5, 7), (4, 7), (4, 6)] KEY_DOWN (1, 1) 0 2 Playing) (- 1)
      = Some (Inr (game_10_30 [(6, 7), (5, 7), (4, 7)] KEY_DOWN (1, 1) 0 2 Playing))"
    using t2 by (simp add: s)
  show ?thesis
    by (simp add: run_10_30 [OF _ step_10_30_instructions] run_10_30 [OF _ t1']
        run_10_30 [OF _ t2'] run_10_30 [OF _ t3] run_Nil)
qed

lemma start_10_30_first_draw:
  assumes "draw 8 28 rnd 0 = (1, 1)"
  shows "main_start rnd 10 30 =
     Some (Inr (Started (game_10_30 [(4, 7), (4, 6), (4, 5)] KEY_RIGHT (1, 1) 0 2 Instructions)))"
proof -
  have "create_food 8 28 (spawn 4 7) rnd 0 = Some (Inr (draw 8 28 rnd 0, 0 + 2))"
    by (rule create_food_free) (simp_all add: assms spawn_def)
  then have cf: "create_food (10 - 2) (30 - 2) (spawn ((10 - 2) div 2) ((30 - 2) div 4)) rnd 0
      = Some (Inr ((1, 1), 2))"
    by (simp add: assms)
  have "(10::int) \<le> 10" "(30::int) \<le> 30" by simp_all
  from main_start_eq [OF this cf] show ?thesis by (simp add: game_10_30_def spawn_def)
qed

text \<open>
  C7. In every state that a run reaches from the start of the program, the cells of the
  snake are pairwise distinct and inside the interior; the snake has exactly three cells
  at the start; and a tick from such a state that returns a state leaves the cells
  pairwise distinct and inside the interior.
\<close>

theorem reachable_snake_invariant:
  assumes "main_start rnd sh0 sw0 = Some (Inr (Started g0))"
    and "run rnd g0 ks = Some (Inr g)"
  shows "length (snake g0) = 3
       \<and> distinct (snake g) \<and> (\<forall>c \<in> set (snake g). interior (h g) (w g) c)
       \<and> (\<forall>key g'. tick rnd g key = Some (Inr g') \<longrightarrow>
             distinct (snake g') \<and> (\<forall>c \<in> set (snake g'). interior (h g') (w g') c))"
proof -
  note s0 = main_start_session [OF assms(1)]
  have len: "length (snake g0) = 3" using s0(3) by (simp add: spawn_length)
  have s: "session sh0 sw0 g" using s0(1) assms(2) by (rule run_session)
  have ok: "snake_ok (h g) (w g) (snake g)" using s by (rule session_snake_ok)
  have step: "snake_ok (h g') (w g') (snake g')" if "tick rnd g key = Some (Inr g')" for key g'
    using tick_session [OF s that] by (rule session_snake_ok)
  show ?thesis
    using len ok step unfolding snake_ok_def by blast
qed

theorem reachable_snake_invariant_witness:
  "\<exists>g0 g. main_start (\<lambda>_. 0) 10 30 = Some (Inr (Started g0))
     \<and> run (\<lambda>_. 0) g0 [- 1, - 1] = Some (Inr g)
     \<and> snake g = [(4, 8), (4, 7), (4, 6)]
     \<and> length (snake g0) = 3
     \<and> distinct (snake g) \<and> (\<forall>c \<in> set (snake g). interior (h g) (w g) c)"
proof -
  let ?start = "game_10_30 [(4, 7), (4, 6), (4, 5)] KEY_RIGHT (1, 1) 0 2 Instructions"
  let ?g = "game_10_30 [(4, 8), (4, 7), (4, 6)] KEY_RIGHT (1, 1) 0 2 Playing"
  note inst = reachable_snake_invariant [OF start_10_30 run_10_30_one_tick]
  from inst have a: "length (snake ?start) = 3" by (rule conjunct1)
  from inst have b: "distinct (snake ?g)" by (rule conjunct2 [THEN conjunct1])
  from inst have c: "\<forall>c \<in> set (snake ?g). interior (h ?g) (w ?g) c"
    by (rule conjunct2 [THEN conjunct2, THEN conjunct1])
  have s: "snake ?g = [(4, 8), (4, 7), (4, 6)]" by (simp add: game_10_30_def)
  show ?thesis
    by (rule exI [of _ ?start], rule exI [of _ ?g])
      (intro conjI, rule start_10_30, rule run_10_30_one_tick, rule s, rule a, rule b, rule c)
qed

text \<open>
  C8. From a state of a run that waits in \<open>game_over\<close>, the key \<open>r\<close> leads to the state
  in which the phase is playing, the score 0, the snake the three cells of the first
  spawn, the direction right, the food the cell that \<open>create_food\<close> returns for this
  snake from the current position of the random generator (its first candidate that is
  not on the snake, which is inside the interior), and the generator advanced past that
  candidate; every other variable is unchanged, and the step returns once
  \<open>create_food\<close> draws a free cell. The key \<open>q\<close> ends the program and changes nothing
  else.
\<close>

theorem game_over_restart_quit:
  assumes "main_start rnd sh0 sw0 = Some (Inr (Started g0))"
    and "run rnd g0 ks = Some (Inr g)"
    and "phase g = GameOver s"
    and "\<exists>k. draw (h g) (w g) rnd (rng g + 2 * k) \<notin> set (snake g0)"
  shows "(\<exists>g' k. step rnd g ord_r = Some (Inr g')
             \<and> g' = g\<lparr>snake := snake g0, direction := KEY_RIGHT,
                      food := draw (h g) (w g) rnd (rng g + 2 * k),
                      rng := rng g + 2 * k + 2, score := 0, phase := Playing\<rparr>
             \<and> (\<forall>j<k. draw (h g) (w g) rnd (rng g + 2 * j) \<in> set (snake g0))
             \<and> create_food (h g) (w g) (snake g0) rnd (rng g) = Some (Inr (food g', rng g'))
             \<and> phase g' = Playing \<and> score g' = 0
             \<and> snake g' = snake g0 \<and> length (snake g') = 3 \<and> direction g' = KEY_RIGHT
             \<and> food g' \<notin> set (snake g') \<and> interior (h g') (w g') (food g'))
       \<and> step rnd g ord_q = Some (Inr (g\<lparr>phase := Terminated\<rparr>))"
proof
  note s0 = main_start_session [OF assms(1)]
  have s: "session sh0 sw0 g" using s0(1) assms(2) by (rule run_session)
  have sp: "spawn (snake_y g) (snake_x g) = snake g0"
    using session_spawn [OF s] s0(3) by simp
  from assms(4) obtain k
    where occ: "\<forall>j<k. draw (h g) (w g) rnd (rng g + 2 * j) \<in> set (snake g0)"
      and free: "draw (h g) (w g) rnd (rng g + 2 * k) \<notin> set (snake g0)"
    by (rule first_free_draw)
  from session_bounds [OF s] have H: "3 \<le> h g" and W: "3 \<le> w g" by simp_all
  let ?f = "draw (h g) (w g) rnd (rng g + 2 * k)"
  have cf: "create_food (h g) (w g) (snake g0) rnd (rng g) = Some (Inr (?f, rng g + 2 * k + 2))"
    using H W occ free by (rule create_food_first_free)
  have int: "interior (h g) (w g) ?f" using H W by (rule draw_interior)
  let ?g' = "g\<lparr>snake := snake g0, direction := KEY_RIGHT,
               food := ?f, rng := rng g + 2 * k + 2, score := 0, phase := Playing\<rparr>"
  have 1: "step rnd g ord_r = Some (Inr ?g')"
    using step_game_over_r [OF assms(3)] restart_eq [of g rnd ?f "rng g + 2 * k + 2"] cf
    by (simp add: sp)
  have 2: "create_food (h g) (w g) (snake g0) rnd (rng g) = Some (Inr (food ?g', rng ?g'))"
    using cf by simp
  have 3: "phase ?g' = Playing" and 4: "score ?g' = 0" and 5: "snake ?g' = snake g0"
    and 7: "direction ?g' = KEY_RIGHT"
    by simp_all
  have 6: "length (snake ?g') = 3" using sp spawn_length [of "snake_y g" "snake_x g"] by simp
  have 8: "food ?g' \<notin> set (snake ?g')" using free by simp
  have 9: "interior (h ?g') (w ?g') (food ?g')" using int by simp
  show "\<exists>g' k. step rnd g ord_r = Some (Inr g')
             \<and> g' = g\<lparr>snake := snake g0, direction := KEY_RIGHT,
                      food := draw (h g) (w g) rnd (rng g + 2 * k),
                      rng := rng g + 2 * k + 2, score := 0, phase := Playing\<rparr>
             \<and> (\<forall>j<k. draw (h g) (w g) rnd (rng g + 2 * j) \<in> set (snake g0))
             \<and> create_food (h g) (w g) (snake g0) rnd (rng g) = Some (Inr (food g', rng g'))
             \<and> phase g' = Playing \<and> score g' = 0
             \<and> snake g' = snake g0 \<and> length (snake g') = 3 \<and> direction g' = KEY_RIGHT
             \<and> food g' \<notin> set (snake g') \<and> interior (h g') (w g') (food g')"
    by (rule exI [of _ ?g'], rule exI [of _ k])
      (intro conjI, rule 1, rule refl, rule occ, rule 2, rule 3, rule 4, rule 5, rule 6,
        rule 7, rule 8, rule 9)
next
  show "step rnd g ord_q = Some (Inr (g\<lparr>phase := Terminated\<rparr>))"
    using assms(3) by (rule step_game_over_q)
qed

text \<open>
  The example is a run on a terminal of 10 rows and 30 columns that ends on the bottom
  wall. After \<open>r\<close> the first candidate for the food, row 4, column 7, is on the new
  snake; the second, row 3, column 1, is free.
\<close>

theorem game_over_restart_quit_witness:
  "(\<exists>g'. step (\<lambda>n. if n = 2 then 3 else if n = 3 then 6 else if n = 4 then 2 else 0)
            (game_10_30 [(6, 7), (5, 7), (4, 7)] KEY_DOWN (1, 1) 0 2 (GameOver 0)) ord_r
            = Some (Inr g')
        \<and> phase g' = Playing \<and> score g' = 0 \<and> snake g' = [(4, 7), (4, 6), (4, 5)]
        \<and> direction g' = KEY_RIGHT \<and> food g' = (3, 1) \<and> rng g' = 6)
   \<and> step (\<lambda>n. if n = 2 then 3 else if n = 3 then 6 else if n = 4 then 2 else 0)
         (game_10_30 [(6, 7), (5, 7), (4, 7)] KEY_DOWN (1, 1) 0 2 (GameOver 0)) ord_q
       = Some (Inr (game_10_30 [(6, 7), (5, 7), (4, 7)] KEY_DOWN (1, 1) 0 2 Terminated))"
proof -
  let ?rnd = "(\<lambda>n. if n = 2 then 3 else if n = 3 then 6 else if n = 4 then 2 else 0) :: nat \<Rightarrow> nat"
  let ?start = "game_10_30 [(4, 7), (4, 6), (4, 5)] KEY_RIGHT (1, 1) 0 2 Instructions"
  let ?g = "game_10_30 [(6, 7), (5, 7), (4, 7)] KEY_DOWN (1, 1) 0 2 (GameOver 0)"
  let ?cells = "[(4, 7), (4, 6), (4, 5)] :: cell list"
  have d0: "draw 8 28 ?rnd 0 = (1, 1)" by (simp add: draw_def)
  have d2: "draw 8 28 ?rnd 2 = (4, 7)" by (simp add: draw_def)
  have d4: "draw 8 28 ?rnd 4 = (3, 1)" by (simp add: draw_def)
  have st: "main_start ?rnd 10 30 = Some (Inr (Started ?start))"
    using d0 by (rule start_10_30_first_draw)
  have rn: "run ?rnd ?start [- 1, KEY_DOWN, - 1, - 1] = Some (Inr ?g)"
    by (rule run_10_30_game_over)
  have p: "phase ?g = GameOver 0" by (simp add: game_10_30_def)
  have f: "h ?g = 8" "w ?g = 28" "rng ?g = 2" "snake ?start = ?cells"
    by (simp_all add: game_10_30_def)
  have e: "(2::nat) + 2 * 1 = 4" "(4::nat) + 2 = 6" by simp_all
  have k: "\<exists>k. draw (h ?g) (w ?g) ?rnd (rng ?g + 2 * k) \<notin> set (snake ?start)"
    unfolding f by (rule exI [of _ 1]) (simp only: e d4, simp)
  have occ: "\<forall>j<1. draw 8 28 ?rnd (2 + 2 * j) \<in> set ?cells"
    using d2 by simp
  have free: "draw 8 28 ?rnd (2 + 2 * 1) \<notin> set ?cells"
    by (simp only: e d4) simp
  have "(3::int) \<le> 8" "(3::int) \<le> 28" by simp_all
  from create_food_first_free [OF this occ free]
  have val: "create_food 8 28 ?cells ?rnd 2 = Some (Inr ((3, 1), 6))"
    by (simp only: e d4)
  note inst = game_over_restart_quit [OF st rn p k, unfolded f]
  from inst [THEN conjunct1] obtain g' k where r: "step ?rnd ?g ord_r = Some (Inr g')"
    and c: "create_food 8 28 ?cells ?rnd 2 = Some (Inr (food g', rng g'))"
    and f1: "phase g' = Playing" and f2: "score g' = 0" and f3: "snake g' = ?cells"
    and f5: "direction g' = KEY_RIGHT"
    by (elim exE conjE)
  from c val have f6: "food g' = (3, 1)" and f7: "rng g' = 6" by simp_all
  have 1: "\<exists>g'. step ?rnd ?g ord_r = Some (Inr g')
        \<and> phase g' = Playing \<and> score g' = 0 \<and> snake g' = [(4, 7), (4, 6), (4, 5)]
        \<and> direction g' = KEY_RIGHT \<and> food g' = (3, 1) \<and> rng g' = 6"
    by (rule exI [of _ g']) (intro conjI, rule r, rule f1, rule f2, rule f3, rule f5, rule f6, rule f7)
  from inst have "step ?rnd ?g ord_q = Some (Inr (?g\<lparr>phase := Terminated\<rparr>))"
    by (rule conjunct2)
  then have 2: "step ?rnd ?g ord_q
      = Some (Inr (game_10_30 [(6, 7), (5, 7), (4, 7)] KEY_DOWN (1, 1) 0 2 Terminated))"
    by (simp add: game_10_30_def)
  from 1 2 show ?thesis by (rule conjI)
qed

text \<open>
  The start of the program, by the size of the terminal. With fewer than 10 rows or fewer
  than 30 columns and more than 41 cells (the message has 41 characters) the program
  writes the message that the terminal is too small, sleeps, and returns, whatever the
  input; with at most 41 cells writing the message raises \<^verbatim>\<open>curses.error\<close>. A run that
  is in the playing phase started on a terminal of at least 10 rows and 30 columns; and
  on such a terminal the program is in the playing phase after the first \<open>getch\<close> has
  returned (the start returns once \<open>create_food\<close> draws a free cell).
\<close>

theorem main_enters_playing:
  "((sh0 < 10 \<or> sw0 < 30) \<and> 41 < sh0 * sw0 \<longrightarrow>
      main rnd sh0 sw0 ks =
        Some (Inr (TooSmall
          [Clear, AddStr 0 0 ''Terminal too small. Resize and try again.'', Refresh, Sleep 2])))
   \<and> ((sh0 < 10 \<or> sw0 < 30) \<and> sh0 * sw0 \<le> 41 \<longrightarrow>
        main rnd sh0 sw0 ks = Some (Inl CursesError))
   \<and> ((\<exists>g. main rnd sh0 sw0 ks = Some (Inr (Started g)) \<and> phase g = Playing)
        \<longrightarrow> 10 \<le> sh0 \<and> 30 \<le> sw0)
   \<and> (10 \<le> sh0 \<and> 30 \<le> sw0
        \<and> (\<exists>k. draw (sh0 - 2) (sw0 - 2) rnd (0 + 2 * k)
                 \<notin> set (spawn ((sh0 - 2) div 2) ((sw0 - 2) div 4)))
        \<longrightarrow> (\<exists>g. main rnd sh0 sw0 [key] = Some (Inr (Started g)) \<and> phase g = Playing))"
proof (intro conjI impI)
  assume "(sh0 < 10 \<or> sw0 < 30) \<and> 41 < sh0 * sw0"
  then show "main rnd sh0 sw0 ks =
        Some (Inr (TooSmall
          [Clear, AddStr 0 0 ''Terminal too small. Resize and try again.'', Refresh, Sleep 2]))"
    by (simp add: main_def main_start_too_small)
next
  assume "(sh0 < 10 \<or> sw0 < 30) \<and> sh0 * sw0 \<le> 41"
  then show "main rnd sh0 sw0 ks = Some (Inl CursesError)"
    by (simp add: main_def main_start_raises)
next
  assume "\<exists>g. main rnd sh0 sw0 ks = Some (Inr (Started g)) \<and> phase g = Playing"
  then obtain g where m: "main rnd sh0 sw0 ks = Some (Inr (Started g))" by (elim exE conjE)
  from m obtain g0 where ms: "main_start rnd sh0 sw0 = Some (Inr (Started g0))"
    by (rule main_cases)
  from ms have "10 \<le> sh0 \<and> 30 \<le> sw0" by (rule main_start_cases) simp
  then show "10 \<le> sh0" "30 \<le> sw0" by simp_all
next
  assume a: "10 \<le> sh0 \<and> 30 \<le> sw0
        \<and> (\<exists>k. draw (sh0 - 2) (sw0 - 2) rnd (0 + 2 * k)
                 \<notin> set (spawn ((sh0 - 2) div 2) ((sw0 - 2) div 4)))"
  then have big: "10 \<le> sh0" "30 \<le> sw0" by simp_all
  from a obtain k where k: "draw (sh0 - 2) (sw0 - 2) rnd (0 + 2 * k)
                 \<notin> set (spawn ((sh0 - 2) div 2) ((sw0 - 2) div 4))"
    by (elim conjE exE)
  have H: "3 \<le> sh0 - 2" and W: "3 \<le> sw0 - 2" using big by simp_all
  from create_food_returns [OF H W k] obtain f i
    where cf: "create_food (sh0 - 2) (sw0 - 2) (spawn ((sh0 - 2) div 2) ((sw0 - 2) div 4)) rnd 0
                 = Some (Inr (f, i))"
    by (elim exE conjE)
  let ?start = "\<lparr>sh = sh0, sw = sw0, h = sh0 - 2, w = sw0 - 2,
        snake_x = (sw0 - 2) div 4, snake_y = (sh0 - 2) div 2,
        snake = spawn ((sh0 - 2) div 2) ((sw0 - 2) div 4), direction = KEY_RIGHT,
        food = f, score = 0, stdscr_delay = 100, win_delay = 100, rng = i,
        phase = Instructions\<rparr>"
  have ms: "main_start rnd sh0 sw0 = Some (Inr (Started ?start))"
    by (rule main_start_eq [OF big cf])
  have d: "delay_of ?start = 100" by (simp add: delay_of_def)
  have "run rnd ?start [key] = run rnd (?start\<lparr>phase := Playing\<rparr>) []"
    using run_Cons [of ?start, OF _ d, of rnd key "[]"] by (simp add: step_instructions)
  then have "run rnd ?start [key] = Some (Inr (?start\<lparr>phase := Playing\<rparr>))"
    by (simp add: run_Nil)
  with ms have "main rnd sh0 sw0 [key] = Some (Inr (Started (?start\<lparr>phase := Playing\<rparr>)))"
    by (simp add: main_def)
  moreover have "phase (?start\<lparr>phase := Playing\<rparr>) = Playing" by simp
  ultimately show "\<exists>g. main rnd sh0 sw0 [key] = Some (Inr (Started g)) \<and> phase g = Playing"
    by blast
qed

theorem main_enters_playing_witness:
  "main (\<lambda>_. 0) 9 30 [- 1] =
     Some (Inr (TooSmall
       [Clear, AddStr 0 0 ''Terminal too small. Resize and try again.'', Refresh, Sleep 2]))
   \<and> (\<exists>g. main (\<lambda>_. 0) 10 30 [- 1] = Some (Inr (Started g)) \<and> phase g = Playing)"
proof -
  let ?rnd = "\<lambda>_::nat. 0::nat"
  have small: "((9::int) < 10 \<or> (30::int) < 30) \<and> (41::int) < 9 * 30" by simp
  from main_enters_playing [of 9 30 ?rnd "[- 1]" 0, THEN conjunct1, THEN mp, OF small]
  have 1: "main ?rnd 9 30 [- 1] =
     Some (Inr (TooSmall
       [Clear, AddStr 0 0 ''Terminal too small. Resize and try again.'', Refresh, Sleep 2]))" .
  have "\<exists>k. draw (10 - 2) (30 - 2) ?rnd (0 + 2 * k)
      \<notin> set (spawn ((10 - 2) div 2) ((30 - 2) div 4))"
    by (rule exI [of _ 0]) (simp add: draw_def spawn_def)
  then have big: "(10::int) \<le> 10 \<and> (30::int) \<le> 30
      \<and> (\<exists>k. draw (10 - 2) (30 - 2) ?rnd (0 + 2 * k)
            \<notin> set (spawn ((10 - 2) div 2) ((30 - 2) div 4)))"
    by (intro conjI) simp_all
  from main_enters_playing [of 10 30 ?rnd "[- 1]" "- 1", THEN conjunct2, THEN conjunct2,
      THEN conjunct2, THEN mp, OF big]
  have 2: "\<exists>g. main ?rnd 10 30 [- 1] = Some (Inr (Started g)) \<and> phase g = Playing" .
  from 1 2 show ?thesis by (rule conjI)
qed

text \<open>
  C9. On a terminal of 2 rows and 20 columns, which is below the minimum, the 41
  characters of the message do not fit in the 40 cells: \<^verbatim>\<open>addstr\<close> at line 26 raises
  \<^verbatim>\<open>curses.error\<close>, which \<^verbatim>\<open>main\<close> does not catch, so the program neither shows the
  message nor sleeps nor returns normally. On a terminal of 9 rows and 30 columns it
  writes the message, sleeps and returns.
\<close>

theorem main_too_small_raises:
  "addstr 2 20 0 0 ''Terminal too small. Resize and try again.'' = Inl CursesError
   \<and> main (\<lambda>_. 0) 2 20 [] = Some (Inl CursesError)
   \<and> main (\<lambda>_. 0) 9 30 [] =
       Some (Inr (TooSmall
         [Clear, AddStr 0 0 ''Terminal too small. Resize and try again.'', Refresh, Sleep 2]))"
  by (simp add: main_def main_start_def addstr_def)

text \<open>
  C4. Line 18 sets the delay of \<open>stdscr\<close> to 100 ms, so the \<open>getch\<close> in
  \<open>show_instructions\<close> returns \<open>-1\<close> when no key arrives within the interval, where a
  blocking \<open>getch\<close> would go on waiting. On a terminal of 10 rows and 30 columns with
  no key pressed during the first interval, the program is then in the playing phase.
\<close>

theorem instructions_end_without_key:
  "getch 100 [- 1] = Some (- 1, []) \<and> getch (- 1) [- 1] = None
   \<and> main (\<lambda>_. 0) 10 30 [- 1] =
       Some (Inr (Started (game_10_30 [(4, 7), (4, 6), (4, 5)] KEY_RIGHT (1, 1) 0 2 Playing)))"
proof -
  have "run (\<lambda>_. 0) (game_10_30 [(4, 7), (4, 6), (4, 5)] KEY_RIGHT (1, 1) 0 2 Instructions) [- 1]
      = Some (Inr (game_10_30 [(4, 7), (4, 6), (4, 5)] KEY_RIGHT (1, 1) 0 2 Playing))"
    by (simp add: run_10_30 [OF _ step_10_30_instructions] run_Nil)
  then show ?thesis by (simp add: main_def start_10_30)
qed

end
